theory Spec2Isabelle
  imports Main "HOL-Library.Word" "HOL-Library.Signed_Division"
begin

section \<open>Data model of \<^verbatim>\<open>src/main.c\<close>\<close>

text \<open>
  The program is one C file: a descriptor struct \<^verbatim>\<open>task_params_t\<close>, a helper
  \<^verbatim>\<open>sleep_ms\<close>, the thread body \<^verbatim>\<open>task_fn\<close> and the driver \<^verbatim>\<open>main\<close>.
  A C \<^verbatim>\<open>int\<close> is a 32-bit word read in two's complement (\<open>sint\<close>), compared with the
  signed order \<open>\<le>s\<close>.
\<close>

type_synonym cint = "32 word"

definition INT_MAX :: cint where
  "INT_MAX = 2147483647"

text \<open>\<^verbatim>\<open>typedef struct { const char* name; int period_ms; int iterations; } task_params_t;\<close>\<close>

record task_params_t =
  name :: string
  period_ms :: cint
  iterations :: cint

text \<open>\<^verbatim>\<open>struct timespec\<close>: \<^verbatim>\<open>time_t tv_sec\<close> and \<^verbatim>\<open>long tv_nsec\<close> are 64 bits wide on the
  build target; the values \<^verbatim>\<open>sleep_ms\<close> stores are far inside that range.\<close>

record timespec =
  tv_sec :: int
  tv_nsec :: int

text \<open>
  What a task prints: \<^verbatim>\<open>"[%s] iteration %d\n"\<close> is the iteration event of a name and a
  label, \<^verbatim>\<open>"[%s] done\n"\<close> the completion event of a name.
\<close>

datatype event = Iteration string int | Done string

text \<open>The three threads of the process, named after the \<^verbatim>\<open>pthread_t\<close> variables of \<^verbatim>\<open>main\<close>.\<close>

datatype thread = Main_thread | Thread_ta | Thread_tb

text \<open>
  Every call that reaches outside the program is an effect. \<open>Busy_work\<close> is the
  \<^verbatim>\<open>volatile\<close> counting loop of 100000 steps; \<open>Pthread_create\<close> records the handle, the
  descriptor passed as argument and the value the call returned; \<open>Exit\<close> is the
  \<^verbatim>\<open>return\<close> of \<^verbatim>\<open>main\<close>, which ends the process with that status.
\<close>

datatype effect =
    Busy_work
  | Printf event
  | Fflush
  | Nanosleep timespec
  | Pthread_create thread task_params_t cint
  | Perror string
  | Pthread_join thread
  | Puts string
  | Exit cint

text \<open>
  The arithmetic of the file that C leaves undefined for some input: the increment
  \<^verbatim>\<open>i++\<close> of the loop counter at \<^verbatim>\<open>INT_MAX\<close>. A run that reaches it has no defined
  behaviour, and the model says nothing about it beyond this error.
\<close>

datatype error = Signed_overflow

text \<open>
  The state a running \<^verbatim>\<open>task_fn\<close> can touch: the struct its argument points to, and the
  effects performed so far.
\<close>

record state =
  obj :: task_params_t
  trace :: "effect list"

section \<open>The task body\<close>

text \<open>
  \<^verbatim>\<open>ts.tv_sec = ms / 1000; ts.tv_nsec = (ms % 1000) * 1000000L; nanosleep(&ts, NULL);\<close>
  C division truncates towards zero (\<open>sdiv\<close>, \<open>smod\<close>).
\<close>

definition sleep_ms :: "cint \<Rightarrow> effect list" where
  "sleep_ms ms =
     [Nanosleep \<lparr>tv_sec = sint ms sdiv 1000, tv_nsec = (sint ms smod 1000) * 1000000\<rparr>]"

text \<open>
  POSIX \<^verbatim>\<open>nanosleep\<close>: a request with a negative field or with \<^verbatim>\<open>tv_nsec\<close> above
  999999999 is refused (\<^verbatim>\<open>EINVAL\<close>) and suspends nothing; any other request suspends
  the caller for that many nanoseconds.
\<close>

definition requested_ns :: "timespec \<Rightarrow> int option" where
  "requested_ns ts =
     (if tv_sec ts < 0 \<or> tv_nsec ts < 0 \<or> 999999999 < tv_nsec ts then None
      else Some (tv_sec ts * 1000000000 + tv_nsec ts))"

text \<open>Facts about the signed reading of a C \<^verbatim>\<open>int\<close>, needed to see that the loop ends.\<close>

lemma sint_INT_MAX: "sint INT_MAX = 2147483647"
  by (simp add: INT_MAX_def)

lemma sint_le_INT_MAX: "sint (i::cint) \<le> 2147483647"
  using sint_lt [of i] by simp

lemma sint_ge_INT_MIN: "- 2147483648 \<le> sint (i::cint)"
  using sint_ge [of i] by simp

lemma sint_below_INT_MAX:
  assumes "(i::cint) \<noteq> INT_MAX"
  shows "sint i < 2147483647"
proof -
  have "sint i \<noteq> sint INT_MAX"
  proof
    assume "sint i = sint INT_MAX"
    then have "i = INT_MAX" by (rule signed_word_eqI)
    with assms show False by simp
  qed
  with sint_le_INT_MAX [of i] show ?thesis
    by (simp add: sint_INT_MAX)
qed

lemma sint_incr:
  assumes "(i::cint) \<noteq> INT_MAX"
  shows "sint (i + 1) = sint i + 1"
proof -
  have "sint (i + 1) = signed_take_bit 31 (sint i + 1)"
    by (simp add: sint_word_ariths)
  also have "\<dots> = sint i + 1"
    using sint_below_INT_MAX [OF assms] sint_ge_INT_MIN [of i]
    by (intro signed_take_bit_int_eq_self) simp_all
  finally show ?thesis .
qed

text \<open>
  The \<^verbatim>\<open>for\<close> loop of \<^verbatim>\<open>task_fn\<close>, entered with the counter \<open>i\<close>: the test
  \<^verbatim>\<open>i <= p->iterations\<close>, the body (busy work, \<^verbatim>\<open>printf\<close>, \<^verbatim>\<open>fflush\<close>, \<^verbatim>\<open>sleep_ms\<close>),
  then \<^verbatim>\<open>i++\<close>.
\<close>

function task_loop :: "cint \<Rightarrow> state \<Rightarrow> error + state" where
  "task_loop i s =
     (if i \<le>s iterations (obj s) then
        (let s' = s\<lparr>trace := trace s @
                    [Busy_work, Printf (Iteration (name (obj s)) (sint i)), Fflush] @
                    sleep_ms (period_ms (obj s))\<rparr>
         in if i = INT_MAX then Inl Signed_overflow else task_loop (i + 1) s')
      else Inr s)"
  by pat_completeness auto
termination
  by (relation "measure (\<lambda>(i, s). nat (2147483647 - sint i))")
     (simp_all add: sint_incr sint_below_INT_MAX)

declare task_loop.simps [simp del]

text \<open>After the loop: \<^verbatim>\<open>printf("[%s] done\n", p->name); fflush(stdout); return NULL;\<close>\<close>

definition task_fn :: "state \<Rightarrow> error + state" where
  "task_fn s =
     (case task_loop 1 s of
        Inl e \<Rightarrow> Inl e
      | Inr s' \<Rightarrow> Inr (s'\<lparr>trace := trace s' @ [Printf (Done (name (obj s'))), Fflush]\<rparr>))"

text \<open>
  One execution of a task: \<^verbatim>\<open>task_fn\<close> started by \<^verbatim>\<open>pthread_create\<close> on a descriptor,
  with nothing done yet. \<open>thread_body\<close> is everything the thread does, \<open>execution\<close> the
  events it prints.
\<close>

fun events :: "effect list \<Rightarrow> event list" where
  "events [] = []"
| "events (Printf e # tr) = e # events tr"
| "events (_ # tr) = events tr"

definition thread_body :: "task_params_t \<Rightarrow> error + effect list" where
  "thread_body p =
     (case task_fn \<lparr>obj = p, trace = []\<rparr> of Inl e \<Rightarrow> Inl e | Inr s' \<Rightarrow> Inr (trace s'))"

definition execution :: "task_params_t \<Rightarrow> error + event list" where
  "execution p = (case thread_body p of Inl e \<Rightarrow> Inl e | Inr tr \<Rightarrow> Inr (events tr))"

text \<open>
  The effects of iteration \<open>k\<close> of the loop, and of a whole run that returns, written
  out in closed form; \<open>task_loop\<close> and \<open>task_fn\<close> are compared with them below.
\<close>

definition iteration_block :: "task_params_t \<Rightarrow> int \<Rightarrow> effect list" where
  "iteration_block p k =
     [Busy_work, Printf (Iteration (name p) k), Fflush] @ sleep_ms (period_ms p)"

definition task_trace :: "task_params_t \<Rightarrow> effect list" where
  "task_trace p =
     concat (map (iteration_block p) [1..sint (iterations p)]) @
     [Printf (Done (name p)), Fflush]"

text \<open>For how long an effect suspends its thread: only an accepted \<^verbatim>\<open>nanosleep\<close> does.\<close>

fun suspension_ns :: "effect \<Rightarrow> int option" where
  "suspension_ns (Nanosleep ts) = requested_ns ts"
| "suspension_ns _ = None"

section \<open>The driver\<close>

text \<open>
  \<^verbatim>\<open>task_params_t A = { "TASK_A", 10, 5 }; task_params_t B = { "TASK_B", 16, 5 };\<close>
\<close>

definition A :: task_params_t where
  "A = \<lparr>name = ''TASK_A'', period_ms = 10, iterations = 5\<rparr>"

definition B :: task_params_t where
  "B = \<lparr>name = ''TASK_B'', period_ms = 16, iterations = 5\<rparr>"

text \<open>
  What \<^verbatim>\<open>main\<close> cannot decide itself: the values its two \<^verbatim>\<open>pthread_create\<close> calls
  return (0 on success, an error number otherwise).
\<close>

record env =
  create_ta :: cint
  create_tb :: cint

text \<open>
  The calls \<^verbatim>\<open>main\<close> makes, in program order, ending with its \<^verbatim>\<open>return\<close>. A failed
  \<^verbatim>\<open>pthread_create\<close> leads to \<^verbatim>\<open>perror\<close> and \<^verbatim>\<open>return 1\<close>; otherwise both threads are
  joined, then \<^verbatim>\<open>puts("SELF_TEST_FAIL")\<close> and \<^verbatim>\<open>return 0\<close>.
\<close>

definition main :: "env \<Rightarrow> effect list" where
  "main e =
     Pthread_create Thread_ta A (create_ta e) #
     (if create_ta e \<noteq> 0 then [Perror ''pthread_create A'', Exit 1]
      else
        Pthread_create Thread_tb B (create_tb e) #
        (if create_tb e \<noteq> 0 then [Perror ''pthread_create B'', Exit 1]
         else [Pthread_join Thread_ta, Pthread_join Thread_tb,
               Puts ''SELF_TEST_FAIL'', Exit 0]))"

section \<open>The process: three threads under a scheduler\<close>

text \<open>
  The threads run concurrently; which one moves next is the scheduler's choice. A
  process is what remains for \<^verbatim>\<open>main\<close> to do, what remains for each created thread,
  the log of every effect performed so far (tagged with its thread, in the order
  performed), and the exit status once the process has ended.
\<close>

record process =
  main_rest :: "effect list"
  workers :: "thread \<Rightarrow> effect list option"
  log :: "(thread \<times> effect) list"
  exit_status :: "cint option"

text \<open>
  One step of \<^verbatim>\<open>main\<close>. A successful \<^verbatim>\<open>pthread_create\<close> starts the thread on the body
  of \<^verbatim>\<open>task_fn\<close> for its descriptor; \<^verbatim>\<open>pthread_join\<close> goes ahead only when the joined
  thread has nothing left to do, and leaves the process as it is otherwise (the caller
  stays blocked); \<open>Exit\<close> ends the process.
\<close>

definition main_step :: "process \<Rightarrow> error + process" where
  "main_step P =
     (case main_rest P of
        [] \<Rightarrow> Inr P
      | c # rest \<Rightarrow>
          (let P' = P\<lparr>main_rest := rest, log := log P @ [(Main_thread, c)]\<rparr> in
           case c of
             Pthread_create w p r \<Rightarrow>
               (if r = 0 then
                  (case thread_body p of
                     Inl err \<Rightarrow> Inl err
                   | Inr body \<Rightarrow> Inr (P'\<lparr>workers := (workers P)(w \<mapsto> body)\<rparr>))
                else Inr P')
           | Pthread_join w \<Rightarrow> (if workers P w = Some [] then Inr P' else Inr P)
           | Exit c \<Rightarrow> Inr (P'\<lparr>exit_status := Some c\<rparr>)
           | _ \<Rightarrow> Inr P'))"

text \<open>One step of a created thread: its next effect, if it has one left.\<close>

definition worker_step :: "thread \<Rightarrow> process \<Rightarrow> error + process" where
  "worker_step w P =
     (case workers P w of
        Some (c # rest) \<Rightarrow>
          Inr (P\<lparr>workers := (workers P)(w \<mapsto> rest), log := log P @ [(w, c)]\<rparr>)
      | _ \<Rightarrow> Inr P)"

text \<open>The scheduler picks thread \<open>t\<close>. Once the process has exited, nothing moves.\<close>

definition step :: "thread \<Rightarrow> process \<Rightarrow> error + process" where
  "step t P =
     (if exit_status P \<noteq> None then Inr P
      else if t = Main_thread then main_step P
      else worker_step t P)"

fun run :: "thread list \<Rightarrow> process \<Rightarrow> error + process" where
  "run [] P = Inr P"
| "run (t # ts) P = (case step t P of Inl err \<Rightarrow> Inl err | Inr P' \<Rightarrow> run ts P')"

definition start :: "env \<Rightarrow> process" where
  "start e = \<lparr>main_rest = main e, workers = (\<lambda>w. None), log = [], exit_status = None\<rparr>"

text \<open>The effects of one thread, in the order it performed them.\<close>

definition of_thread :: "thread \<Rightarrow> (thread \<times> effect) list \<Rightarrow> effect list" where
  "of_thread t l = map snd (filter (\<lambda>x. fst x = t) l)"

text \<open>The descriptors handed to \<^verbatim>\<open>pthread_create\<close>, in call order.\<close>

fun launches :: "effect list \<Rightarrow> task_params_t list" where
  "launches [] = []"
| "launches (Pthread_create w p r # cs) = p # launches cs"
| "launches (_ # cs) = launches cs"

text \<open>
  A schedule that lets a process in which both threads were created run to its end
  from wherever it stands: \<^verbatim>\<open>main\<close> twice (the two launches), then each thread as often
  as its body is long, then \<^verbatim>\<open>main\<close> four times (the two joins, the status line, the
  return).
\<close>

definition drain :: "thread list" where
  "drain =
     replicate 2 Main_thread @
     replicate (length (task_trace A)) Thread_ta @
     replicate (length (task_trace B)) Thread_tb @
     replicate 4 Main_thread"

section \<open>Notions used in the proofs about the process\<close>

text \<open>The calls of \<^verbatim>\<open>main\<close> when both launches succeed.\<close>

definition main_ok :: "effect list" where
  "main_ok = [Pthread_create Thread_ta A 0, Pthread_create Thread_tb B 0,
              Pthread_join Thread_ta, Pthread_join Thread_tb,
              Puts ''SELF_TEST_FAIL'', Exit 0]"

text \<open>
  Where a thread stands: not yet created, with nothing logged; or created, and what it
  has logged followed by what it has left is its body; once joined it has nothing left.
\<close>

definition worker_inv :: "thread \<Rightarrow> effect list \<Rightarrow> bool \<Rightarrow> bool \<Rightarrow> process \<Rightarrow> bool" where
  "worker_inv w body started joined P =
     (if started then
        (\<exists>r. workers P w = Some r \<and> of_thread w (log P) @ r = body \<and> (joined \<longrightarrow> r = []))
      else workers P w = None \<and> of_thread w (log P) = [])"

text \<open>
  Where the successful run stands after \<open>k\<close> calls of \<^verbatim>\<open>main\<close>: thread \<open>ta\<close> exists from
  call 1 on and is joined from call 3 on, thread \<open>tb\<close> from calls 2 and 4; the process has
  exited after call 6, and the status line and the return are then the end of the log.
\<close>

definition phase :: "nat \<Rightarrow> process \<Rightarrow> bool" where
  "phase k P =
     (k \<le> 6 \<and> main_rest P = drop k main_ok \<and>
      of_thread Main_thread (log P) = take k main_ok \<and>
      worker_inv Thread_ta (task_trace A) (1 \<le> k) (3 \<le> k) P \<and>
      worker_inv Thread_tb (task_trace B) (2 \<le> k) (4 \<le> k) P \<and>
      exit_status P = (if k = 6 then Some 0 else None) \<and>
      (5 \<le> k \<longrightarrow>
         (\<exists>zs. log P = zs @ map (Pair Main_thread) (take (k - 4) (drop 4 main_ok)))))"

text \<open>Both threads are done, so that no join of \<^verbatim>\<open>main\<close> can block.\<close>

definition joinable :: "nat \<Rightarrow> process \<Rightarrow> bool" where
  "joinable k P \<longleftrightarrow>
     phase k P \<and> 2 \<le> k \<and> workers P Thread_ta = Some [] \<and> workers P Thread_tb = Some []"

text \<open>Calls of \<^verbatim>\<open>main\<close> that cannot block and do not end the process.\<close>

fun passes :: "effect \<Rightarrow> bool" where
  "passes (Pthread_join w) = False"
| "passes (Exit x) = False"
| "passes (Pthread_create w p r) = (r \<noteq> 0 \<or> iterations p \<noteq> INT_MAX)"
| "passes _ = True"

section \<open>What the task body does\<close>

subsection \<open>The loop in closed form\<close>

lemma task_loop_overflow:
  "iterations (obj s) = INT_MAX \<Longrightarrow> task_loop i s = Inl Signed_overflow"
proof (induction i s rule: task_loop.induct)
  case (1 i s)
  have le: "i \<le>s INT_MAX"
    by (simp add: word_sle_eq sint_INT_MAX sint_le_INT_MAX)
  show ?case
  proof (cases "i = INT_MAX")
    case True
    with le "1.prems" show ?thesis by (subst task_loop.simps) simp
  next
    case False
    with le "1.prems" "1.IH" show ?thesis
      by (subst task_loop.simps) (simp add: Let_def)
  qed
qed

lemma task_loop_returns:
  "iterations (obj s) \<noteq> INT_MAX \<Longrightarrow>
   task_loop i s =
     Inr (s\<lparr>trace := trace s @
            concat (map (iteration_block (obj s)) [sint i..sint (iterations (obj s))])\<rparr>)"
proof (induction i s rule: task_loop.induct)
  case (1 i s)
  show ?case
  proof (cases "i \<le>s iterations (obj s)")
    case False
    then have "[sint i..sint (iterations (obj s))] = []"
      by (simp add: word_sle_eq)
    with False show ?thesis by (subst task_loop.simps) simp
  next
    case True
    then have le: "sint i \<le> sint (iterations (obj s))"
      by (simp add: word_sle_eq)
    with sint_below_INT_MAX [OF "1.prems"] have ne: "i \<noteq> INT_MAX"
      by (auto simp: sint_INT_MAX)
    have up: "[sint i..sint (iterations (obj s))] =
              sint i # [sint (i + 1)..sint (iterations (obj s))]"
      using le by (simp add: sint_incr [OF ne] upto_rec1)
    show ?thesis
      using True ne "1.prems" "1.IH" [OF True refl ne]
      by (subst task_loop.simps) (simp add: Let_def up iteration_block_def [abs_def])
  qed
qed

text \<open>
  So \<^verbatim>\<open>task_fn\<close> returns for every budget but \<^verbatim>\<open>INT_MAX\<close>, where the counter's
  increment after the last iteration is undefined.
\<close>

lemma task_fn_overflow:
  "iterations (obj s) = INT_MAX \<Longrightarrow> task_fn s = Inl Signed_overflow"
  by (simp add: task_fn_def task_loop_overflow)

lemma task_fn_returns:
  "iterations (obj s) \<noteq> INT_MAX \<Longrightarrow>
   task_fn s = Inr (s\<lparr>trace := trace s @ task_trace (obj s)\<rparr>)"
  by (simp add: task_fn_def task_loop_returns task_trace_def)

lemma task_fn_Inr_iff:
  "(\<exists>s'. task_fn s = Inr s') \<longleftrightarrow> iterations (obj s) \<noteq> INT_MAX"
  by (cases "iterations (obj s) = INT_MAX") (simp_all add: task_fn_overflow task_fn_returns)

lemma thread_body_returns:
  "iterations p \<noteq> INT_MAX \<Longrightarrow> thread_body p = Inr (task_trace p)"
  by (simp add: thread_body_def task_fn_returns)

lemma thread_body_overflow:
  "iterations p = INT_MAX \<Longrightarrow> thread_body p = Inl Signed_overflow"
  by (simp add: thread_body_def task_fn_overflow)

lemma events_append [simp]: "events (xs @ ys) = events xs @ events ys"
  by (induction xs rule: events.induct) simp_all

lemma events_iteration_block [simp]:
  "events (iteration_block p k) = [Iteration (name p) k]"
  by (simp add: iteration_block_def sleep_ms_def)

lemma events_blocks:
  "events (concat (map (iteration_block p) ks)) = map (Iteration (name p)) ks"
  by (induction ks) simp_all

lemma events_task_trace:
  "events (task_trace p) =
     map (Iteration (name p)) [1..sint (iterations p)] @ [Done (name p)]"
  by (simp add: task_trace_def events_blocks)

text \<open>
  Below \<^verbatim>\<open>INT_MAX\<close> an execution prints the iteration events labelled 1 up to the
  budget, in that order, and then the completion event.
\<close>

lemma execution_returns:
  "iterations p \<noteq> INT_MAX \<Longrightarrow>
   execution p = Inr (map (Iteration (name p)) [1..sint (iterations p)] @ [Done (name p)])"
  by (simp add: execution_def thread_body_returns events_task_trace)

lemma execution_overflow:
  "iterations p = INT_MAX \<Longrightarrow> execution p = Inl Signed_overflow"
  by (simp add: execution_def thread_body_overflow)

lemma nonpositive_not_INT_MAX:
  "sint (n::cint) \<le> 0 \<Longrightarrow> n \<noteq> INT_MAX"
  by (auto simp: sint_INT_MAX)

lemma sleep_ms_suspends:
  assumes "0 \<le> sint ms"
  shows "map suspension_ns (sleep_ms ms) = [Some (sint ms * 1000000)]"
proof -
  define a b where "a = sint ms div 1000" and "b = sint ms mod 1000"
  have d: "sint ms sdiv 1000 = a" and m: "sint ms smod 1000 = b"
    using assms by (simp_all add: a_def b_def signed_divide_int_def signed_modulo_int_def sgn_if)
  have a: "0 \<le> a" and b: "0 \<le> b" "b < 1000"
    using assms by (simp_all add: a_def b_def)
  have "a * 1000 + b = sint ms"
    by (simp add: a_def b_def)
  then have sum: "a * 1000000000 + b * 1000000 = sint ms * 1000000"
    by linarith
  from b have nsec: "0 \<le> b * 1000000" "b * 1000000 \<le> 999999999"
    by simp_all
  show ?thesis
    using a nsec sum by (simp add: sleep_ms_def requested_ns_def d m)
qed

lemma last_block:
  assumes "1 \<le> n"
  shows "concat (map (iteration_block p) [1..n]) =
         concat (map (iteration_block p) [1..n - 1]) @ iteration_block p n"
  using assms by (simp add: upto_rec2)

lemma task_fn_X:
  "task_fn \<lparr>obj = \<lparr>name = ''X'', period_ms = 0, iterations = 2\<rparr>, trace = []\<rparr> =
   Inr \<lparr>obj = \<lparr>name = ''X'', period_ms = 0, iterations = 2\<rparr>,
        trace = [Busy_work, Printf (Iteration ''X'' 1), Fflush,
                 Nanosleep \<lparr>tv_sec = 0, tv_nsec = 0\<rparr>,
                 Busy_work, Printf (Iteration ''X'' 2), Fflush,
                 Nanosleep \<lparr>tv_sec = 0, tv_nsec = 0\<rparr>,
                 Printf (Done ''X''), Fflush]\<rparr>"
  by (simp add: task_fn_returns INT_MAX_def task_trace_def iteration_block_def sleep_ms_def
      upto_rec1)

subsection \<open>Events of one execution\<close>

text \<open>
  C1: for every task with a budget of at least 1, one execution emits exactly budget
  iteration events and then exactly one completion event. The code does so for every
  budget below \<^verbatim>\<open>INT_MAX\<close> (\<open>execution_returns\<close>); at the budget \<^verbatim>\<open>INT_MAX\<close>, which is
  at least 1, the loop test \<^verbatim>\<open>i <= p->iterations\<close> never fails, the increment \<^verbatim>\<open>i++\<close>
  overflows, and the run has no defined result and no completion event.
\<close>

theorem execution_INT_MAX_undefined:
  "execution \<lparr>name = ''TASK_A'', period_ms = 10, iterations = 2147483647\<rparr> =
     Inl Signed_overflow"
  by (rule execution_overflow) (simp add: INT_MAX_def)

text \<open>
  C2: for every task with a budget of at least 1, the iteration events carry the labels
  1, 2, ..., budget in that order. Again true below \<^verbatim>\<open>INT_MAX\<close> (\<open>execution_returns\<close>);
  at the budget \<^verbatim>\<open>INT_MAX\<close> the loop, when its counter stands at the last label
  2147483647, whatever it has done before (\<open>tr\<close>), prints that label and then increments
  the counter past \<^verbatim>\<open>INT_MAX\<close> instead of leaving: the labels are not closed off at the
  budget.
\<close>

theorem task_loop_last_label_overflows:
  "task_loop 2147483647
     \<lparr>obj = \<lparr>name = ''TASK_A'', period_ms = 10, iterations = 2147483647\<rparr>, trace = tr\<rparr> =
   Inl Signed_overflow"
  by (subst task_loop.simps) (simp add: INT_MAX_def Let_def)

text \<open>
  C3, as the code has it: a task whose budget is below 1 is not rejected. \<^verbatim>\<open>task_fn\<close>
  runs it as zero iterations: it returns normally, having printed and flushed the
  completion line and nothing else.
\<close>

theorem task_fn_below_one:
  "sint (iterations (obj s)) < 1 \<Longrightarrow>
   task_fn s = Inr (s\<lparr>trace := trace s @ [Printf (Done (name (obj s))), Fflush]\<rparr>)"
  by (simp add: task_fn_returns nonpositive_not_INT_MAX task_trace_def)

theorem task_fn_below_one_witness:
  "sint (iterations (obj \<lparr>obj = \<lparr>name = ''X'', period_ms = 7, iterations = 0\<rparr>,
                          trace = []\<rparr>)) < 1 \<and>
   task_fn \<lparr>obj = \<lparr>name = ''X'', period_ms = 7, iterations = 0\<rparr>, trace = []\<rparr> =
   Inr \<lparr>obj = \<lparr>name = ''X'', period_ms = 7, iterations = 0\<rparr>,
        trace = [Printf (Done ''X''), Fflush]\<rparr>"
  using task_fn_below_one
    [of "\<lparr>obj = \<lparr>name = ''X'', period_ms = 7, iterations = 0\<rparr>, trace = []\<rparr>"]
  by simp

text \<open>
  C3 as stated (a budget of 0 fails with an error and produces no events) does not
  hold: the execution of a task with budget 0 is no error, and it produces an event.
\<close>

theorem zero_budget_runs_counterexample:
  "\<not> isl (execution \<lparr>name = ''TASK_A'', period_ms = 10, iterations = 0\<rparr>) \<and>
   execution \<lparr>name = ''TASK_A'', period_ms = 10, iterations = 0\<rparr> \<noteq> Inr []"
  by (simp add: execution_returns INT_MAX_def)

text \<open>
  What the body does off that boundary: for every budget but \<^verbatim>\<open>INT_MAX\<close> the run returns
  and consists, for every \<open>i\<close> from 1 to the budget, of the work unit, the iteration
  event \<open>i\<close> (flushed) and \<^verbatim>\<open>sleep_ms\<close> of the period, in that order, followed by the
  completion event.
\<close>

lemma task_fn_shape:
  "iterations (obj s) \<noteq> INT_MAX \<Longrightarrow>
   task_fn s =
     Inr (s\<lparr>trace :=
            trace s @
            concat (map (\<lambda>i. [Busy_work, Printf (Iteration (name (obj s)) i), Fflush] @
                              sleep_ms (period_ms (obj s)))
                      [1..sint (iterations (obj s))]) @
            [Printf (Done (name (obj s))), Fflush]\<rparr>)"
  by (simp add: task_fn_returns task_trace_def iteration_block_def [abs_def])

text \<open>
  With a budget of at least 1 such a run ends with the last iteration event, its flush,
  the sleep and the completion line: the sleep of the last iteration lies between the
  last iteration event and the completion event.
\<close>

lemma task_fn_last_sleep:
  assumes "iterations (obj s) \<noteq> INT_MAX" "1 \<le> sint (iterations (obj s))"
  shows "task_fn s =
     Inr (s\<lparr>trace :=
            trace s @
            concat (map (iteration_block (obj s)) [1..sint (iterations (obj s)) - 1]) @
            [Busy_work, Printf (Iteration (name (obj s)) (sint (iterations (obj s)))), Fflush] @
            sleep_ms (period_ms (obj s)) @
            [Printf (Done (name (obj s))), Fflush]\<rparr>)"
  using assms
  by (simp add: task_fn_returns task_trace_def last_block iteration_block_def)

text \<open>
  A period below 0 makes \<^verbatim>\<open>sleep_ms\<close> pass a negative field to \<^verbatim>\<open>nanosleep\<close>, which
  refuses the request: nothing is suspended.
\<close>

lemma sleep_ms_refused:
  assumes "sint ms < 0"
  shows "map suspension_ns (sleep_ms ms) = [None]"
proof -
  define a b where "a = \<bar>sint ms\<bar> div 1000" and "b = \<bar>sint ms\<bar> mod 1000"
  have d: "sint ms sdiv 1000 = - a" and m: "sint ms smod 1000 = - b"
    using assms by (simp_all add: a_def b_def signed_divide_int_def signed_modulo_int_def sgn_if)
  have a: "0 \<le> a" and b: "0 \<le> b"
    by (simp_all add: a_def b_def)
  have "a * 1000 + b = \<bar>sint ms\<bar>"
    by (simp add: a_def b_def)
  with assms have "0 < a \<or> 0 < b"
    using a b by (cases "a = 0") auto
  then have "- a < 0 \<or> - b * 1000000 < 0"
    by auto
  then show ?thesis
    by (auto simp: sleep_ms_def requested_ns_def d m)
qed

lemma sleep_ms_example:
  "map suspension_ns (sleep_ms 2500) = [Some 2500000000] \<and>
   map suspension_ns (sleep_ms (- 1500)) = [None]"
  by (simp add: sleep_ms_def requested_ns_def signed_divide_int_def signed_modulo_int_def)


text \<open>
  C8: running a task to its end leaves the name, the period and the budget of its
  descriptor as they were.
\<close>

theorem task_fn_leaves_descriptor:
  "task_fn s = Inr s' \<Longrightarrow>
   name (obj s') = name (obj s) \<and> period_ms (obj s') = period_ms (obj s) \<and>
   iterations (obj s') = iterations (obj s)"
  by (cases "iterations (obj s) = INT_MAX") (auto simp: task_fn_overflow task_fn_returns)

theorem task_fn_leaves_descriptor_witness:
  "task_fn \<lparr>obj = \<lparr>name = ''X'', period_ms = 0, iterations = 2\<rparr>, trace = []\<rparr> =
   Inr \<lparr>obj = \<lparr>name = ''X'', period_ms = 0, iterations = 2\<rparr>,
        trace = [Busy_work, Printf (Iteration ''X'' 1), Fflush,
                 Nanosleep \<lparr>tv_sec = 0, tv_nsec = 0\<rparr>,
                 Busy_work, Printf (Iteration ''X'' 2), Fflush,
                 Nanosleep \<lparr>tv_sec = 0, tv_nsec = 0\<rparr>,
                 Printf (Done ''X''), Fflush]\<rparr> \<and>
   obj \<lparr>obj = \<lparr>name = ''X'', period_ms = 0, iterations = 2\<rparr>,
        trace = [Busy_work, Printf (Iteration ''X'' 1), Fflush,
                 Nanosleep \<lparr>tv_sec = 0, tv_nsec = 0\<rparr>,
                 Busy_work, Printf (Iteration ''X'' 2), Fflush,
                 Nanosleep \<lparr>tv_sec = 0, tv_nsec = 0\<rparr>,
                 Printf (Done ''X''), Fflush]\<rparr> =
     \<lparr>name = ''X'', period_ms = 0, iterations = 2\<rparr>"
  using task_fn_leaves_descriptor [OF task_fn_X] task_fn_X by simp

text \<open>
  C9: with a budget of 0 or less, an execution emits no iteration event and exactly one
  completion event, for the task's name.
\<close>

theorem execution_nonpositive:
  "sint (iterations p) \<le> 0 \<Longrightarrow> execution p = Inr [Done (name p)]"
  by (simp add: execution_returns nonpositive_not_INT_MAX)

theorem execution_nonpositive_witness:
  "sint (iterations \<lparr>name = ''TASK_A'', period_ms = 10, iterations = - 3\<rparr>) \<le> 0 \<and>
   execution \<lparr>name = ''TASK_A'', period_ms = 10, iterations = - 3\<rparr> = Inr [Done ''TASK_A'']"
  using execution_nonpositive [of "\<lparr>name = ''TASK_A'', period_ms = 10, iterations = - 3\<rparr>"]
  by simp

text \<open>
  C10: the events of an execution do not depend on the period: changing only
  \<^verbatim>\<open>period_ms\<close> of a descriptor changes neither the events nor whether the run is
  defined.
\<close>

theorem execution_ignores_period:
  "execution (p\<lparr>period_ms := q\<rparr>) = execution p"
  by (cases "iterations p = INT_MAX") (simp_all add: execution_returns execution_overflow)

section \<open>What the driver does\<close>

subsection \<open>Both launches succeed\<close>

lemma main_both_created: "create_ta e = 0 \<Longrightarrow> create_tb e = 0 \<Longrightarrow> main e = main_ok"
  by (simp add: main_def main_ok_def)

lemma thread_body_A: "thread_body A = Inr (task_trace A)"
  by (rule thread_body_returns) (simp add: A_def INT_MAX_def)

lemma thread_body_B: "thread_body B = Inr (task_trace B)"
  by (rule thread_body_returns) (simp add: B_def INT_MAX_def)

lemma of_thread_Nil [simp]: "of_thread t [] = []"
  by (simp add: of_thread_def)

lemma of_thread_append [simp]: "of_thread t (xs @ ys) = of_thread t xs @ of_thread t ys"
  by (simp add: of_thread_def)

lemma of_thread_Cons [simp]:
  "of_thread t ((t', c) # l) = (if t' = t then c # of_thread t l else of_thread t l)"
  by (simp add: of_thread_def)

lemma phase_start: "create_ta e = 0 \<Longrightarrow> create_tb e = 0 \<Longrightarrow> phase 0 (start e)"
  by (simp add: phase_def start_def main_both_created worker_inv_def)

lemma worker_step_phase:
  assumes "phase k P" "w \<noteq> Main_thread"
  shows "\<exists>P'. worker_step w P = Inr P' \<and> phase k P'"
proof (cases "workers P w")
  case None
  with assms show ?thesis by (simp add: worker_step_def)
next
  case (Some r)
  show ?thesis
  proof (cases r)
    case Nil
    with Some assms show ?thesis by (simp add: worker_step_def)
  next
    case (Cons c rest)
    let ?P' = "P\<lparr>workers := (workers P)(w \<mapsto> rest), log := log P @ [(w, c)]\<rparr>"
    have st: "worker_step w P = Inr ?P'"
      using Some Cons by (simp add: worker_step_def)
    have "phase k ?P'"
    proof (cases w)
      case Main_thread
      with assms show ?thesis by simp
    next
      case Thread_ta
      with assms Some Cons show ?thesis
        by (auto simp: phase_def worker_inv_def split: if_splits)
    next
      case Thread_tb
      with assms Some Cons show ?thesis
        by (auto simp: phase_def worker_inv_def split: if_splits)
    qed
    with st show ?thesis by blast
  qed
qed

lemma phase_cases:
  assumes "phase k P"
  obtains "k = 0" | "k = 1" | "k = 2" | "k = 3" | "k = 4" | "k = 5" | "k = 6"
proof -
  from assms have "k \<le> 6" by (simp add: phase_def)
  then have "k = 0 \<or> k = 1 \<or> k = 2 \<or> k = 3 \<or> k = 4 \<or> k = 5 \<or> k = 6" by arith
  with that show thesis by blast
qed

lemma main_step_phase0:
  "phase 0 P \<Longrightarrow> \<exists>P'. main_step P = Inr P' \<and> phase 1 P'"
  by (auto simp: phase_def main_step_def main_ok_def worker_inv_def thread_body_A)

lemma main_step_phase1:
  "phase 1 P \<Longrightarrow> \<exists>P'. main_step P = Inr P' \<and> phase 2 P'"
  by (auto simp: phase_def main_step_def main_ok_def worker_inv_def thread_body_B)

lemma main_step_phase2:
  "phase 2 P \<Longrightarrow> \<exists>P'. main_step P = Inr P' \<and> (phase 2 P' \<or> phase 3 P')"
  by (auto simp: phase_def main_step_def main_ok_def worker_inv_def)

lemma main_step_phase3:
  "phase 3 P \<Longrightarrow> \<exists>P'. main_step P = Inr P' \<and> (phase 3 P' \<or> phase 4 P')"
  by (auto simp: phase_def main_step_def main_ok_def worker_inv_def)

lemma main_step_phase4:
  "phase 4 P \<Longrightarrow> \<exists>P'. main_step P = Inr P' \<and> phase 5 P'"
  by (auto simp: phase_def main_step_def main_ok_def worker_inv_def)

lemma main_step_phase5:
  "phase 5 P \<Longrightarrow> \<exists>P'. main_step P = Inr P' \<and> phase 6 P'"
  by (auto simp: phase_def main_step_def main_ok_def worker_inv_def)

lemma main_step_phase:
  assumes "phase k P" "k \<noteq> 6"
  shows "\<exists>P' k'. main_step P = Inr P' \<and> phase k' P' \<and> k \<le> k'"
  using assms(1)
proof (cases rule: phase_cases)
  case 1
  with assms main_step_phase0 [of P] show ?thesis by blast
next
  case 2
  with assms main_step_phase1 [of P] obtain P' where "main_step P = Inr P'" "phase 2 P'"
    by blast
  moreover have "k \<le> 2" using 2 by simp
  ultimately show ?thesis by blast
next
  case 3
  with assms main_step_phase2 [of P] obtain P' where
    P': "main_step P = Inr P'" "phase 2 P' \<or> phase 3 P'"
    by blast
  have "k \<le> 2" "k \<le> 3" using 3 by simp_all
  with P' show ?thesis by blast
next
  case 4
  with assms main_step_phase3 [of P] obtain P' where
    P': "main_step P = Inr P'" "phase 3 P' \<or> phase 4 P'"
    by blast
  have "k \<le> 3" "k \<le> 4" using 4 by simp_all
  with P' show ?thesis by blast
next
  case 5
  with assms main_step_phase4 [of P] obtain P' where "main_step P = Inr P'" "phase 5 P'"
    by blast
  moreover have "k \<le> 5" using 5 by simp
  ultimately show ?thesis by blast
next
  case 6
  with assms main_step_phase5 [of P] obtain P' where "main_step P = Inr P'" "phase 6 P'"
    by blast
  moreover have "k \<le> 6" using 6 by simp
  ultimately show ?thesis by blast
next
  case 7
  with assms show ?thesis by simp
qed

lemma step_phase:
  assumes "phase k P"
  shows "\<exists>P' k'. step t P = Inr P' \<and> phase k' P' \<and> k \<le> k'"
proof (cases "exit_status P = None")
  case False
  with assms show ?thesis by (auto simp: step_def)
next
  case True
  with assms have k6: "k \<noteq> 6" by (auto simp: phase_def)
  show ?thesis
  proof (cases "t = Main_thread")
    case False
    with True worker_step_phase [OF assms False] show ?thesis
      by (auto simp: step_def)
  next
    case main: True
    with True main_step_phase [OF assms k6] show ?thesis by (simp add: step_def)
  qed
qed

lemma run_phase:
  "phase k P \<Longrightarrow> \<exists>P' k'. run sched P = Inr P' \<and> phase k' P' \<and> k \<le> k'"
proof (induction sched arbitrary: k P)
  case Nil
  then show ?case by auto
next
  case (Cons t sched)
  from step_phase [OF Cons.prems, of t] obtain P1 k1 where
    s: "step t P = Inr P1" and p: "phase k1 P1" and le: "k \<le> k1"
    by blast
  from Cons.IH [OF p] obtain P' k' where "run sched P1 = Inr P'" "phase k' P'" "k1 \<le> k'"
    by blast
  with s le show ?case by auto
qed

lemma phase_exited:
  assumes "phase k P" "exit_status P = Some c"
  shows "c = 0 \<and> of_thread Thread_ta (log P) = task_trace A \<and>
         of_thread Thread_tb (log P) = task_trace B \<and>
         of_thread Main_thread (log P) = main_ok \<and>
         drop (length (log P) - 2) (log P) =
           [(Main_thread, Puts ''SELF_TEST_FAIL''), (Main_thread, Exit 0)]"
proof -
  from assms have k: "k = 6" by (auto simp: phase_def split: if_splits)
  with assms show ?thesis
    by (auto simp: phase_def worker_inv_def main_ok_def)
qed

lemma run_append:
  "run (xs @ ys) P = (case run xs P of Inl err \<Rightarrow> Inl err | Inr P' \<Rightarrow> run ys P')"
  by (induction xs arbitrary: P) (auto split: sum.splits)

lemma phase_exit_None: "phase k P \<Longrightarrow> k \<noteq> 6 \<Longrightarrow> exit_status P = None"
  by (simp add: phase_def)

lemma run_two_main:
  assumes "phase k P"
  shows "\<exists>P' k'. run (replicate 2 Main_thread) P = Inr P' \<and> phase k' P' \<and> 2 \<le> k'"
proof -
  have two: "replicate 2 Main_thread = [Main_thread, Main_thread]"
    by (simp add: numeral_2_eq_2)
  consider "k = 0" | "k = 1" | "2 \<le> k" by arith
  then show ?thesis
  proof cases
    case 1
    with assms main_step_phase0 [of P] obtain P1 where
      a: "step Main_thread P = Inr P1" "phase 1 P1"
      by (auto simp: step_def phase_exit_None)
    with main_step_phase1 [of P1] obtain P2 where
      "step Main_thread P1 = Inr P2" "phase 2 P2"
      by (auto simp: step_def phase_exit_None)
    with a show ?thesis by (auto simp: two)
  next
    case 2
    with assms main_step_phase1 [of P] obtain P1 where
      a: "step Main_thread P = Inr P1" "phase 2 P1"
      by (auto simp: step_def phase_exit_None)
    from step_phase [OF a(2), of Main_thread] obtain P2 k2 where
      "step Main_thread P1 = Inr P2" "phase k2 P2" "2 \<le> k2"
      by blast
    with a show ?thesis by (auto simp: two)
  next
    case 3
    from run_phase [OF assms, of "replicate 2 Main_thread"] 3 show ?thesis
      by (meson le_trans)
  qed
qed

lemma run_worker:
  assumes "phase k P" "workers P w = Some r" "w \<noteq> Main_thread"
  shows "\<exists>P'. run (replicate n w) P = Inr P' \<and> phase k P' \<and>
              workers P' w = Some (drop n r) \<and>
              (\<forall>w'. w' \<noteq> w \<longrightarrow> workers P' w' = workers P w')"
  using assms
proof (induction n arbitrary: P r)
  case 0
  then show ?case by simp
next
  case (Suc n)
  show ?case
  proof (cases "exit_status P = None \<and> r \<noteq> []")
    case False
    then have same: "step w P = Inr P"
      using Suc.prems by (auto simp: step_def worker_step_def)
    have "r = []"
    proof (rule ccontr)
      assume "r \<noteq> []"
      with False have "exit_status P \<noteq> None" by simp
      with Suc.prems(1) have "k = 6" by (auto simp: phase_def split: if_splits)
      with Suc.prems show False
        using \<open>r \<noteq> []\<close> by (cases w) (auto simp: phase_def worker_inv_def)
    qed
    with Suc.IH [OF Suc.prems] same show ?thesis by auto
  next
    case True
    then obtain c rest where r: "r = c # rest" by (cases r) auto
    let ?P1 = "P\<lparr>workers := (workers P)(w \<mapsto> rest), log := log P @ [(w, c)]\<rparr>"
    have st: "step w P = Inr ?P1"
      using True Suc.prems r by (simp add: step_def worker_step_def)
    from worker_step_phase [OF Suc.prems(1) Suc.prems(3)] have ph: "phase k ?P1"
      using Suc.prems r by (simp add: worker_step_def)
    have "workers ?P1 w = Some rest" by simp
    from Suc.IH [OF ph this Suc.prems(3)] obtain P' where
      "run (replicate n w) ?P1 = Inr P'" "phase k P'" "workers P' w = Some (drop n rest)"
      "\<forall>w'. w' \<noteq> w \<longrightarrow> workers P' w' = workers ?P1 w'"
      by blast
    with st r show ?thesis by auto
  qed
qed

lemma joinable_step:
  assumes "joinable k P"
  shows "\<exists>P'. step Main_thread P = Inr P' \<and> joinable (min 6 (Suc k)) P'"
proof -
  from assms have ph: "phase k P" by (simp add: joinable_def)
  from ph show ?thesis
  proof (cases rule: phase_cases)
    case 1
    with assms show ?thesis by (simp add: joinable_def)
  next
    case 2
    with assms show ?thesis by (simp add: joinable_def)
  next
    case 3
    with assms show ?thesis
      by (auto simp: joinable_def phase_def step_def main_step_def main_ok_def worker_inv_def)
  next
    case 4
    with assms show ?thesis
      by (auto simp: joinable_def phase_def step_def main_step_def main_ok_def worker_inv_def)
  next
    case 5
    with assms show ?thesis
      by (auto simp: joinable_def phase_def step_def main_step_def main_ok_def worker_inv_def)
  next
    case 6
    with assms show ?thesis
      by (auto simp: joinable_def phase_def step_def main_step_def main_ok_def worker_inv_def)
  next
    case 7
    with assms show ?thesis
      by (auto simp: joinable_def phase_def step_def)
  qed
qed

lemma joinable_run:
  "joinable k P \<Longrightarrow>
   \<exists>P'. run (replicate n Main_thread) P = Inr P' \<and> joinable (min 6 (k + n)) P'"
proof (induction n arbitrary: k P)
  case 0
  then have "k \<le> 6" by (simp add: joinable_def phase_def)
  with 0 show ?case by (simp add: min_def)
next
  case (Suc n)
  from joinable_step [OF Suc.prems] obtain P1 where
    s: "step Main_thread P = Inr P1" and j: "joinable (min 6 (Suc k)) P1"
    by blast
  from Suc.IH [OF j] obtain P' where
    "run (replicate n Main_thread) P1 = Inr P'" "joinable (min 6 (min 6 (Suc k) + n)) P'"
    by blast
  moreover have "min 6 (min 6 (Suc k) + n) = min 6 (k + Suc n)" by simp
  ultimately show ?case using s by auto
qed

lemma worker_inv_length:
  "phase k P \<Longrightarrow> 2 \<le> k \<Longrightarrow>
   (\<exists>ra rb. workers P Thread_ta = Some ra \<and> length ra \<le> length (task_trace A) \<and>
            workers P Thread_tb = Some rb \<and> length rb \<le> length (task_trace B))"
proof -
  assume ph: "phase k P" and k: "2 \<le> k"
  from ph k obtain ra where ra: "workers P Thread_ta = Some ra"
    "of_thread Thread_ta (log P) @ ra = task_trace A"
    by (auto simp: phase_def worker_inv_def)
  from ph k obtain rb where rb: "workers P Thread_tb = Some rb"
    "of_thread Thread_tb (log P) @ rb = task_trace B"
    by (auto simp: phase_def worker_inv_def)
  have "length ra \<le> length (of_thread Thread_ta (log P) @ ra)"
       "length rb \<le> length (of_thread Thread_tb (log P) @ rb)"
    by simp_all
  with ra rb show ?thesis by simp
qed

lemma run_drain:
  assumes "phase k P"
  shows "\<exists>P'. run drain P = Inr P' \<and> exit_status P' = Some 0"
proof -
  from run_two_main [OF assms] obtain P1 k1 where
    r1: "run (replicate 2 Main_thread) P = Inr P1" and p1: "phase k1 P1" and k1: "2 \<le> k1"
    by blast
  from worker_inv_length [OF p1 k1] obtain ra rb where
    ra: "workers P1 Thread_ta = Some ra" "length ra \<le> length (task_trace A)" and
    rb: "workers P1 Thread_tb = Some rb" "length rb \<le> length (task_trace B)"
    by blast
  from run_worker [OF p1 ra(1), of "length (task_trace A)"] ra(2) obtain P2 where
    r2: "run (replicate (length (task_trace A)) Thread_ta) P1 = Inr P2" and
    p2: "phase k1 P2" and a2: "workers P2 Thread_ta = Some []" and
    o2: "\<forall>w'. w' \<noteq> Thread_ta \<longrightarrow> workers P2 w' = workers P1 w'"
    by auto
  from o2 rb have b2: "workers P2 Thread_tb = Some rb" by simp
  from run_worker [OF p2 b2, of "length (task_trace B)"] rb(2) obtain P3 where
    r3: "run (replicate (length (task_trace B)) Thread_tb) P2 = Inr P3" and
    p3: "phase k1 P3" and b3: "workers P3 Thread_tb = Some []" and
    o3: "\<forall>w'. w' \<noteq> Thread_tb \<longrightarrow> workers P3 w' = workers P2 w'"
    by auto
  from o3 a2 have a3: "workers P3 Thread_ta = Some []" by simp
  from p3 k1 a3 b3 have "joinable k1 P3" by (simp add: joinable_def)
  from joinable_run [OF this, of 4] obtain P4 where
    r4: "run (replicate 4 Main_thread) P3 = Inr P4" and j4: "joinable (min 6 (k1 + 4)) P4"
    by blast
  from k1 have "min 6 (k1 + 4) = 6" by simp
  with j4 have "exit_status P4 = Some 0" by (simp add: joinable_def phase_def)
  with r1 r2 r3 r4 show ?thesis
    by (simp add: drain_def run_append)
qed

text \<open>
  C4: when both launches succeed then, whatever the scheduler does, a process that has
  exited has status 0, has logged all of both threads' bodies and all calls of \<^verbatim>\<open>main\<close>
  (the joins among them), and the last two entries of its log are the status line
  \<^verbatim>\<open>SELF_TEST_FAIL\<close> and the return of 0. From every point it reaches, the process does
  exit with status 0 once every thread is scheduled long enough.
\<close>

theorem main_reports_after_both_joined:
  assumes "create_ta e = 0" "create_tb e = 0"
  shows "(\<exists>P. run sched (start e) = Inr P \<and>
            (\<forall>c. exit_status P = Some c \<longrightarrow>
               c = 0 \<and>
               of_thread Thread_ta (log P) = task_trace A \<and>
               of_thread Thread_tb (log P) = task_trace B \<and>
               of_thread Main_thread (log P) = main e \<and>
               drop (length (log P) - 2) (log P) =
                 [(Main_thread, Puts ''SELF_TEST_FAIL''), (Main_thread, Exit 0)])) \<and>
         (\<exists>P. run (sched @ drain) (start e) = Inr P \<and> exit_status P = Some 0)"
proof -
  from run_phase [OF phase_start [OF assms], of sched] obtain P k where
    r: "run sched (start e) = Inr P" and p: "phase k P"
    by blast
  from run_drain [OF p] obtain P' where "run drain P = Inr P'" "exit_status P' = Some 0"
    by blast
  with r have "\<exists>P. run (sched @ drain) (start e) = Inr P \<and> exit_status P = Some 0"
    by (simp add: run_append)
  moreover have "\<forall>c. exit_status P = Some c \<longrightarrow>
               c = 0 \<and>
               of_thread Thread_ta (log P) = task_trace A \<and>
               of_thread Thread_tb (log P) = task_trace B \<and>
               of_thread Main_thread (log P) = main e \<and>
               drop (length (log P) - 2) (log P) =
                 [(Main_thread, Puts ''SELF_TEST_FAIL''), (Main_thread, Exit 0)]"
    using phase_exited [OF p] main_both_created [OF assms] by simp
  ultimately show ?thesis using r by blast
qed

theorem main_reports_after_both_joined_witness:
  "create_ta \<lparr>create_ta = 0, create_tb = 0\<rparr> = 0 \<and>
   create_tb \<lparr>create_ta = 0, create_tb = 0\<rparr> = 0 \<and>
   (\<exists>P. run drain (start \<lparr>create_ta = 0, create_tb = 0\<rparr>) = Inr P \<and>
        exit_status P = Some 0 \<and>
        of_thread Thread_ta (log P) = task_trace A \<and>
        of_thread Thread_tb (log P) = task_trace B \<and>
        drop (length (log P) - 2) (log P) =
          [(Main_thread, Puts ''SELF_TEST_FAIL''), (Main_thread, Exit 0)])"
  using main_reports_after_both_joined [of "\<lparr>create_ta = 0, create_tb = 0\<rparr>" drain]
        main_reports_after_both_joined [of "\<lparr>create_ta = 0, create_tb = 0\<rparr>" "[]"]
  by auto

subsection \<open>A launch fails\<close>

lemma run_exited: "exit_status P \<noteq> None \<Longrightarrow> run sched P = Inr P"
  by (induction sched) (simp_all add: step_def)

lemma main_step_passes:
  assumes "main_rest P = c # rest" "passes c"
  shows "\<exists>P'. main_step P = Inr P' \<and> main_rest P' = rest \<and>
              log P' = log P @ [(Main_thread, c)] \<and> exit_status P' = exit_status P"
  using assms
  by (cases c) (auto simp: main_step_def thread_body_returns Let_def)

lemma main_step_Exit:
  assumes "main_rest P = [Exit x]"
  shows "\<exists>P'. main_step P = Inr P' \<and> main_rest P' = [] \<and>
              log P' = log P @ [(Main_thread, Exit x)] \<and> exit_status P' = Some x"
  using assms by (simp add: main_step_def)

lemma worker_step_main:
  assumes "w \<noteq> Main_thread"
  shows "\<exists>P'. worker_step w P = Inr P' \<and> main_rest P' = main_rest P \<and>
              of_thread Main_thread (log P') = of_thread Main_thread (log P) \<and>
              exit_status P' = exit_status P"
  using assms by (auto simp: worker_step_def split: option.splits list.splits)

lemma run_straight:
  assumes "main_rest P = cs @ [Exit x]" "\<forall>c\<in>set cs. passes c" "exit_status P = None"
  shows "\<exists>P'. run sched P = Inr P' \<and>
           (if length cs < count_list sched Main_thread
            then exit_status P' = Some x \<and>
                 of_thread Main_thread (log P') = of_thread Main_thread (log P) @ cs @ [Exit x]
            else exit_status P' = None)"
  using assms
proof (induction sched arbitrary: P cs)
  case Nil
  then show ?case by simp
next
  case (Cons t sched)
  show ?case
  proof (cases "t = Main_thread")
    case False
    from worker_step_main [OF False, of P] obtain P1 where
      s: "worker_step t P = Inr P1" and m: "main_rest P1 = main_rest P" and
      l: "of_thread Main_thread (log P1) = of_thread Main_thread (log P)" and
      x: "exit_status P1 = exit_status P"
      by blast
    from Cons.IH [of P1 cs] Cons.prems m x obtain P' where
      "run sched P1 = Inr P'"
      "if length cs < count_list sched Main_thread
       then exit_status P' = Some x \<and>
            of_thread Main_thread (log P') = of_thread Main_thread (log P1) @ cs @ [Exit x]
       else exit_status P' = None"
      by auto
    with s l False Cons.prems(3) show ?thesis
      by (auto simp: step_def)
  next
    case main: True
    show ?thesis
    proof (cases cs)
      case Nil
      with Cons.prems main_step_Exit [of P x] obtain P1 where
        s: "main_step P = Inr P1" and l: "log P1 = log P @ [(Main_thread, Exit x)]" and
        e: "exit_status P1 = Some x"
        by auto
      from e have "run sched P1 = Inr P1" by (simp add: run_exited)
      with s l e main Nil Cons.prems(3) show ?thesis
        by (simp add: step_def)
    next
      case (Cons c cs')
      with Cons.prems main_step_passes [of P c "cs' @ [Exit x]"] obtain P1 where
        s: "main_step P = Inr P1" and m: "main_rest P1 = cs' @ [Exit x]" and
        l: "log P1 = log P @ [(Main_thread, c)]" and e: "exit_status P1 = None"
        by auto
      from Cons.IH [of P1 cs'] m e Cons.prems(2) Cons obtain P' where
        "run sched P1 = Inr P'"
        "if length cs' < count_list sched Main_thread
         then exit_status P' = Some x \<and>
              of_thread Main_thread (log P') = of_thread Main_thread (log P1) @ cs' @ [Exit x]
         else exit_status P' = None"
        by auto
      with s l main Cons Cons.prems(3) show ?thesis
        by (auto simp: step_def)
    qed
  qed
qed

lemma main_A_fails:
  "create_ta e \<noteq> 0 \<Longrightarrow>
   main e = [Pthread_create Thread_ta A (create_ta e), Perror ''pthread_create A'', Exit 1]"
  by (simp add: main_def)

lemma main_B_fails:
  "create_ta e = 0 \<Longrightarrow> create_tb e \<noteq> 0 \<Longrightarrow>
   main e = [Pthread_create Thread_ta A 0, Pthread_create Thread_tb B (create_tb e),
             Perror ''pthread_create B'', Exit 1]"
  by (simp add: main_def)

lemma iterations_A: "iterations A \<noteq> INT_MAX"
  by (simp add: A_def INT_MAX_def)

lemma run_failed_launch:
  assumes "create_ta e \<noteq> 0 \<or> create_tb e \<noteq> 0"
  shows "\<exists>P. run sched (start e) = Inr P \<and>
           (if length (main e) \<le> count_list sched Main_thread
            then exit_status P = Some 1 \<and> of_thread Main_thread (log P) = main e
            else exit_status P = None)"
proof (cases "create_ta e \<noteq> 0")
  case True
  let ?cs = "[Pthread_create Thread_ta A (create_ta e), Perror ''pthread_create A'']"
  have "main_rest (start e) = ?cs @ [Exit 1]"
    using True by (simp add: start_def main_A_fails)
  moreover have "\<forall>c\<in>set ?cs. passes c" using True by simp
  moreover have "exit_status (start e) = None" by (simp add: start_def)
  ultimately have "\<exists>P'. run sched (start e) = Inr P' \<and>
           (if length ?cs < count_list sched Main_thread
            then exit_status P' = Some 1 \<and>
                 of_thread Main_thread (log P') =
                   of_thread Main_thread (log (start e)) @ ?cs @ [Exit 1]
            else exit_status P' = None)"
    by (rule run_straight)
  then show ?thesis
    using True by (auto simp: main_A_fails start_def split: if_splits)
next
  case False
  with assms have b: "create_tb e \<noteq> 0" and a: "create_ta e = 0" by simp_all
  let ?cs = "[Pthread_create Thread_ta A 0, Pthread_create Thread_tb B (create_tb e),
              Perror ''pthread_create B'']"
  have "main_rest (start e) = ?cs @ [Exit 1]"
    using a b by (simp add: start_def main_B_fails)
  moreover have "\<forall>c\<in>set ?cs. passes c" using b by (simp add: iterations_A)
  moreover have "exit_status (start e) = None" by (simp add: start_def)
  ultimately have "\<exists>P'. run sched (start e) = Inr P' \<and>
           (if length ?cs < count_list sched Main_thread
            then exit_status P' = Some 1 \<and>
                 of_thread Main_thread (log P') =
                   of_thread Main_thread (log (start e)) @ ?cs @ [Exit 1]
            else exit_status P' = None)"
    by (rule run_straight)
  then show ?thesis
    using a b by (auto simp: main_B_fails start_def split: if_splits)
qed

lemma run_B_fails_at_once:
  assumes "create_ta e = 0" "create_tb e \<noteq> 0"
  shows "\<exists>P. run (replicate 4 Main_thread) (start e) = Inr P \<and> exit_status P = Some 1 \<and>
             workers P Thread_ta = Some (task_trace A) \<and> of_thread Thread_ta (log P) = []"
proof -
  have four: "replicate 4 Main_thread = [Main_thread, Main_thread, Main_thread, Main_thread]"
    by (simp add: numeral_eq_Suc)
  show ?thesis
    using assms
    by (simp add: four start_def main_B_fails step_def main_step_def thread_body_A)
qed

text \<open>
  C6: when a launch fails, \<^verbatim>\<open>main\<close> calls \<^verbatim>\<open>pthread_create\<close> once per task up to the
  failing one, then \<^verbatim>\<open>perror\<close> with the failing task's letter, then returns 1, and never
  calls \<^verbatim>\<open>pthread_join\<close>. Under every schedule the process makes exactly these calls; if
  it has exited, the status is 1, and it has exited as soon as \<^verbatim>\<open>main\<close> was scheduled as
  often as it has calls, whatever thread \<open>ta\<close> has done. When the second launch fails, the
  process can exit before thread \<open>ta\<close>, already created, has done anything.
\<close>

theorem launch_failure_aborts:
  "create_ta e \<noteq> 0 \<or> create_tb e \<noteq> 0 \<Longrightarrow>
   main e =
     (if create_ta e \<noteq> 0
      then [Pthread_create Thread_ta A (create_ta e), Perror ''pthread_create A'', Exit 1]
      else [Pthread_create Thread_ta A 0, Pthread_create Thread_tb B (create_tb e),
            Perror ''pthread_create B'', Exit 1]) \<and>
   (\<exists>P. run sched (start e) = Inr P \<and>
        (\<forall>c. exit_status P = Some c \<longrightarrow> c = 1 \<and> of_thread Main_thread (log P) = main e) \<and>
        (length (main e) \<le> count_list sched Main_thread \<longrightarrow> exit_status P = Some 1)) \<and>
   (create_ta e = 0 \<longrightarrow>
      (\<exists>P. run (replicate 4 Main_thread) (start e) = Inr P \<and> exit_status P = Some 1 \<and>
           workers P Thread_ta = Some (task_trace A) \<and> of_thread Thread_ta (log P) = []))"
proof -
  assume fail: "create_ta e \<noteq> 0 \<or> create_tb e \<noteq> 0"
  have calls: "main e =
     (if create_ta e \<noteq> 0
      then [Pthread_create Thread_ta A (create_ta e), Perror ''pthread_create A'', Exit 1]
      else [Pthread_create Thread_ta A 0, Pthread_create Thread_tb B (create_tb e),
            Perror ''pthread_create B'', Exit 1])"
    using fail by (auto simp: main_A_fails main_B_fails)
  from run_failed_launch [OF fail, of sched] obtain P where
    r: "run sched (start e) = Inr P" and
    x: "if length (main e) \<le> count_list sched Main_thread
        then exit_status P = Some 1 \<and> of_thread Main_thread (log P) = main e
        else exit_status P = None"
    by blast
  from x have "\<forall>c. exit_status P = Some c \<longrightarrow> c = 1 \<and> of_thread Main_thread (log P) = main e"
    by (auto split: if_splits)
  moreover from x have "length (main e) \<le> count_list sched Main_thread \<longrightarrow> exit_status P = Some 1"
    by simp
  ultimately have runs: "\<exists>P. run sched (start e) = Inr P \<and>
        (\<forall>c. exit_status P = Some c \<longrightarrow> c = 1 \<and> of_thread Main_thread (log P) = main e) \<and>
        (length (main e) \<le> count_list sched Main_thread \<longrightarrow> exit_status P = Some 1)"
    using r by blast
  have early: "create_ta e = 0 \<longrightarrow>
      (\<exists>P. run (replicate 4 Main_thread) (start e) = Inr P \<and> exit_status P = Some 1 \<and>
           workers P Thread_ta = Some (task_trace A) \<and> of_thread Thread_ta (log P) = [])"
    using fail run_B_fails_at_once [of e] by auto
  from calls runs early show ?thesis by blast
qed

theorem launch_failure_aborts_witness:
  "create_ta \<lparr>create_ta = 0, create_tb = 11\<rparr> = 0 \<and>
   create_tb \<lparr>create_ta = 0, create_tb = 11\<rparr> \<noteq> 0 \<and>
   main \<lparr>create_ta = 0, create_tb = 11\<rparr> =
     [Pthread_create Thread_ta A 0, Pthread_create Thread_tb B 11,
      Perror ''pthread_create B'', Exit 1] \<and>
   (\<exists>P. run (replicate 4 Main_thread) (start \<lparr>create_ta = 0, create_tb = 11\<rparr>) = Inr P \<and>
        exit_status P = Some 1 \<and> workers P Thread_ta = Some (task_trace A))"
  using launch_failure_aborts [of "\<lparr>create_ta = 0, create_tb = 11\<rparr>" "[]"]
  by auto

subsection \<open>The configuration\<close>

text \<open>
  C7: the two descriptors are \<^verbatim>\<open>TASK_A\<close> with period 10 and 5 iterations and \<^verbatim>\<open>TASK_B\<close>
  with period 16 and 5 iterations; \<^verbatim>\<open>main\<close> hands exactly these to \<^verbatim>\<open>pthread_create\<close>, in
  this order (the second only if the first launch succeeded), and when both launches
  succeed exactly the threads \<open>ta\<close> and \<open>tb\<close> exist, with the bodies of these descriptors.
\<close>

theorem main_launches_reference_tasks:
  "A = \<lparr>name = ''TASK_A'', period_ms = 10, iterations = 5\<rparr> \<and>
   B = \<lparr>name = ''TASK_B'', period_ms = 16, iterations = 5\<rparr> \<and>
   launches (main e) = (if create_ta e = 0 then [A, B] else [A]) \<and>
   (create_ta e = 0 \<and> create_tb e = 0 \<longrightarrow>
      (\<exists>P. run [Main_thread, Main_thread] (start e) = Inr P \<and>
           workers P = (\<lambda>w. None)(Thread_ta \<mapsto> task_trace A, Thread_tb \<mapsto> task_trace B)))"
  by (simp add: A_def [symmetric] B_def [symmetric] main_def start_def step_def main_step_def
      thread_body_A thread_body_B)

theorem main_launches_reference_tasks_witness:
  "create_ta \<lparr>create_ta = 0, create_tb = 0\<rparr> = 0 \<and>
   create_tb \<lparr>create_ta = 0, create_tb = 0\<rparr> = 0 \<and>
   launches (main \<lparr>create_ta = 0, create_tb = 0\<rparr>) =
     [\<lparr>name = ''TASK_A'', period_ms = 10, iterations = 5\<rparr>,
      \<lparr>name = ''TASK_B'', period_ms = 16, iterations = 5\<rparr>] \<and>
   (\<exists>P. run [Main_thread, Main_thread] (start \<lparr>create_ta = 0, create_tb = 0\<rparr>) = Inr P \<and>
        workers P = (\<lambda>w. None)(Thread_ta \<mapsto> task_trace A, Thread_tb \<mapsto> task_trace B))"
  using main_launches_reference_tasks [of "\<lparr>create_ta = 0, create_tb = 0\<rparr>"]
  by simp

end
